theory Spec2Isabelle
  imports Main "HOL-Library.Word"
begin

unbundle bit_operations_syntax

section \<open>The pack(1) decoder of bff\_huffman\_decompress.c\<close>

text \<open>
  The embedding follows \<^verbatim>\<open>src/bff/bff_huffman_decompress.c\<close> function by function.
  The two \<^verbatim>\<open>FILE\<close> streams are byte lists: \<open>fpIn\<close> holds the bytes not yet read,
  \<open>fpOut\<close> the bytes written so far.  Pointers into the symbol table (\<open>tree[i]\<close>,
  \<open>symbol_eob\<close>, \<open>thissymbol\<close>) are offsets from \<open>symbol\<close>.

  The C \<^verbatim>\<open>int\<close> counters are natural numbers here.  Every value stored in them comes
  from an \<^verbatim>\<open>unsigned char\<close>, from sums of at most 255 of those, or from the halving
  recurrence of \<open>unpackd_fill_inodesin\<close>; \<open>thiscode\<close> is shifted only while it is
  below an entry of \<open>inodesin\<close>, and the subtraction that computes \<open>inlevelindex\<close> is
  guarded by \<open>thiscode \<ge> inodesin[thislevel]\<close>.  No value is negative and none comes
  near \<open>2^31\<close>, so truncating division and flooring division agree.

  The only caller is \<^verbatim>\<open>unpack(in_fd, out_fd, 0, 0, 0)\<close>: \<open>prelen = 0\<close> and
  \<open>bytes_in = NULL\<close>, which makes \<^verbatim>\<open>accepted_bytes\<close> do nothing.
\<close>

type_synonym byte = "8 word"

subsection \<open>The reporting hooks\<close>

text \<open>
  \<^verbatim>\<open>maybe_err\<close> and \<^verbatim>\<open>maybe_errx\<close> have empty bodies in the source: a call returns
  to its caller and execution goes on.  The model keeps the same control flow and only
  appends the message to the ghost field \<open>reported\<close>, so that the conditions under
  which a hook is called can be stated.  Nothing in the model reads \<open>reported\<close>.
  The constructors are the message strings of the calls.  Failures of \<^verbatim>\<open>read\<close>,
  \<^verbatim>\<open>fdopen\<close> and \<^verbatim>\<open>calloc\<close> are outside the model.
\<close>

datatype message =
    Huffman_tree_has_insane_levels
  | File_appears_to_be_truncated
  | Bad_symbol_table
  | Symbol_table_truncated
  | File_corrupt
  | Premature_EOF

text \<open>
  What C leaves undefined is a fault of the model: reading \<open>hdr[0]\<close> when
  \<^verbatim>\<open>read\<close> delivered no byte, and indexing a table outside its allocation.
\<close>

datatype fault = Uninitialised_read | Out_of_bounds

record unpack_descriptor =
  symbol_size :: nat
  treelevels :: nat
  symbolsin :: "nat list"
  inodesin :: "nat list"
  symbol :: "byte list"
  symbol_eob :: nat
  tree :: "nat list"
  uncompressed_size :: nat
  fpIn :: "byte list"
  fpOut :: "byte list"
  reported :: "message list"

definition maybe_err :: "message \<Rightarrow> unpack_descriptor \<Rightarrow> unpack_descriptor" where
  "maybe_err m unpackd = unpackd\<lparr>reported := reported unpackd @ [m]\<rparr>"

definition maybe_errx :: "message \<Rightarrow> unpack_descriptor \<Rightarrow> unpack_descriptor" where
  "maybe_errx m unpackd = unpackd\<lparr>reported := reported unpackd @ [m]\<rparr>"

definition HTREE_MAXLEVEL :: nat where
  "HTREE_MAXLEVEL = 24"

subsection \<open>unpackd\_fill\_inodesin\<close>

text \<open>
  The recursion of the source: the call for \<open>level + 1\<close> runs first, then entry
  \<open>level\<close> is written from the entries of \<open>level + 1\<close>.  \<open>treelevels\<close> is the
  index of the deepest level (the caller has decremented it).
\<close>

function unpackd_fill_inodesin :: "unpack_descriptor \<Rightarrow> nat \<Rightarrow> unpack_descriptor" where
  "unpackd_fill_inodesin unpackd level =
     (if level < treelevels unpackd then
        (let u = unpackd_fill_inodesin unpackd (level + 1)
         in u\<lparr>inodesin := (inodesin u)
               [level := (inodesin u ! (level + 1) + symbolsin u ! (level + 1)) div 2]\<rparr>)
      else unpackd\<lparr>inodesin := (inodesin unpackd)[level := 0]\<rparr>)"
  by pat_completeness auto
termination
  by (relation "measure (\<lambda>(unpackd, level). treelevels unpackd - level)") auto

subsection \<open>unpack\_parse\_header\<close>

text \<open>\<^verbatim>\<open>fgetc\<close> on the input stream: \<open>None\<close> is \<^verbatim>\<open>EOF\<close>.\<close>

definition fgetc :: "unpack_descriptor \<Rightarrow> byte option \<times> unpack_descriptor" where
  "fgetc unpackd =
     (case fpIn unpackd of
        [] \<Rightarrow> (None, unpackd)
      | b # bs \<Rightarrow> (Some b, unpackd\<lparr>fpIn := bs\<rparr>))"

text \<open>
  \<^verbatim>\<open>(unsigned char)thisbyte\<close> and \<^verbatim>\<open>(char)thisbyte\<close>: \<^verbatim>\<open>EOF\<close> is \<open>-1\<close>, which
  both casts turn into the byte \<open>0xFF\<close>.
\<close>

definition byte_of :: "byte option \<Rightarrow> byte" where
  "byte_of thisbyte = (case thisbyte of None \<Rightarrow> 255 | Some b \<Rightarrow> b)"

text \<open>
  The loop over the level counts, lines 204 to 209.  The bound \<open>n\<close> is
  \<open>unpackd->treelevels\<close>, which the body does not change.
\<close>

function read_symbolsin :: "nat \<Rightarrow> nat \<Rightarrow> unpack_descriptor \<Rightarrow> unpack_descriptor" where
  "read_symbolsin n i unpackd =
     (if i \<le> n then
        (let (thisbyte, u1) = fgetc unpackd;
             u2 = (if thisbyte = None then maybe_err File_appears_to_be_truncated u1 else u1);
             u3 = u2\<lparr>symbolsin := (symbolsin u2)[i := unat (byte_of thisbyte)]\<rparr>;
             u4 = u3\<lparr>symbol_size := symbol_size u3 + symbolsin u3 ! i\<rparr>
         in read_symbolsin n (i + 1) u4)
      else unpackd)"
  by pat_completeness auto
termination
  by (relation "measure (\<lambda>(n, i, unpackd). Suc n - i)") auto

text \<open>
  The inner loop of lines 231 to 235: \<open>m\<close> is \<open>unpackd->symbolsin[i]\<close>, constant
  during the loop.  Each round stores one byte at \<open>symbol_eob\<close> and advances it.
\<close>

function read_level_symbols :: "nat \<Rightarrow> nat \<Rightarrow> unpack_descriptor \<Rightarrow> unpack_descriptor" where
  "read_level_symbols m j unpackd =
     (if j < m then
        (let (thisbyte, u1) = fgetc unpackd;
             u2 = (if thisbyte = None then maybe_errx Symbol_table_truncated u1 else u1);
             u3 = u2\<lparr>symbol := (symbol u2)[symbol_eob u2 := byte_of thisbyte],
                     symbol_eob := symbol_eob u2 + 1\<rparr>
         in read_level_symbols m (j + 1) u3)
      else unpackd)"
  by pat_completeness auto
termination
  by (relation "measure (\<lambda>(m, j, unpackd). m - j)") auto

text \<open>The outer loop of lines 229 to 237.\<close>

function read_symbols :: "nat \<Rightarrow> nat \<Rightarrow> unpack_descriptor \<Rightarrow> unpack_descriptor" where
  "read_symbols n i unpackd =
     (if i \<le> n then
        (let u1 = unpackd\<lparr>tree := (tree unpackd)[i := symbol_eob unpackd]\<rparr>;
             u2 = read_level_symbols (symbolsin u1 ! i) 0 u1
         in read_symbols n (i + 1) u2)
      else unpackd)"
  by pat_completeness auto
termination
  by (relation "measure (\<lambda>(n, i, unpackd). Suc n - i)") auto

text \<open>
  The descriptor is a local of \<^verbatim>\<open>unpack\<close> with no initialiser; every field is
  assigned before it is read, so the start values below are never observed.
\<close>

definition fresh_descriptor :: "byte list \<Rightarrow> unpack_descriptor" where
  "fresh_descriptor rest =
     \<lparr>symbol_size = 0, treelevels = 0, symbolsin = [], inodesin = [], symbol = [],
      symbol_eob = 0, tree = [], uncompressed_size = 0, fpIn = rest, fpOut = [],
      reported = []\<rparr>"

text \<open>
  The argument is the whole input file.  \<^verbatim>\<open>read(in, hdr, 1)\<close> on an empty file
  returns 0 and leaves \<open>hdr[0]\<close> unwritten.  With a depth byte of 0 the tables have
  no entry, \<open>treelevels\<close> becomes \<open>-1\<close>, both loops are skipped and line 228
  increments \<open>symbolsin[-1]\<close>.
\<close>

definition unpack_parse_header :: "byte list \<Rightarrow> fault + unpack_descriptor" where
  "unpack_parse_header input =
     (case input of
        [] \<Rightarrow> Inl Uninitialised_read
      | hdr # rest \<Rightarrow>
          (let u0 = (fresh_descriptor rest)\<lparr>uncompressed_size := 0\<rparr>;
               u1 = u0\<lparr>treelevels := unat hdr\<rparr>;
               u2 = (if treelevels u1 > HTREE_MAXLEVEL \<or> treelevels u1 < 1
                     then maybe_errx Huffman_tree_has_insane_levels u1 else u1);
               u3 = u2\<lparr>inodesin := replicate (treelevels u2) 0,
                       symbolsin := replicate (treelevels u2) 0,
                       tree := replicate (treelevels u2) 0\<rparr>
           in if treelevels u3 = 0 then Inl Out_of_bounds
              else
                (let u4 = u3\<lparr>treelevels := treelevels u3 - 1\<rparr>;
                     u5 = u4\<lparr>symbol_size := 1\<rparr>;
                     u6 = read_symbolsin (treelevels u5) 0 u5;
                     u7 = (if symbol_size u6 > 256 then maybe_errx Bad_symbol_table u6 else u6);
                     u8 = u7\<lparr>symbol := replicate (symbol_size u7) 0, symbol_eob := 0\<rparr>;
                     u9 = u8\<lparr>symbolsin := (symbolsin u8)
                             [treelevels u8 := symbolsin u8 ! treelevels u8 + 1]\<rparr>;
                     u10 = read_symbols (treelevels u9) 0 u9;
                     u11 = u10\<lparr>symbolsin := (symbolsin u10)
                              [treelevels u10 := symbolsin u10 ! treelevels u10 + 1]\<rparr>
                 in Inr (unpackd_fill_inodesin u11 0))))"

subsection \<open>unpack\_decode\<close>

record decode_vars =
  thislevel :: nat
  thiscode :: nat
  bytes_out :: nat

text \<open>\<open>Finished\<close>: the \<^verbatim>\<open>goto finished\<close> of line 292 was taken.\<close>

datatype flow = Running | Finished

text \<open>
  One round of the \<^verbatim>\<open>for (i = 7; i >= 0; i--)\<close> body, lines 280 to 303.
  \<open>inodesin[thislevel]\<close> is read first; with \<open>thislevel\<close> beyond the table that read
  is outside the allocation.  \<open>thissymbol\<close> is only dereferenced when it differs from
  \<open>symbol_eob\<close>; the symbol table has \<open>symbol_size\<close> bytes.
\<close>

definition decode_bit ::
  "byte \<Rightarrow> nat \<Rightarrow> decode_vars \<times> unpack_descriptor
     \<Rightarrow> fault + (flow \<times> decode_vars \<times> unpack_descriptor)" where
  "decode_bit thisbyte i = (\<lambda>(v, unpackd).
     (let code = push_bit 1 (thiscode v) OR (drop_bit i (unat thisbyte) AND 1);
          v1 = v\<lparr>thiscode := code\<rparr>
      in if thislevel v1 \<ge> length (inodesin unpackd) then Inl Out_of_bounds
         else if thiscode v1 \<ge> inodesin unpackd ! thislevel v1 then
           (let inlevelindex = thiscode v1 - inodesin unpackd ! thislevel v1;
                u1 = (if inlevelindex > symbolsin unpackd ! thislevel v1
                      then maybe_errx File_corrupt unpackd else unpackd);
                thissymbol = tree u1 ! thislevel v1 + inlevelindex
            in if thissymbol = symbol_eob u1 then Inr (Finished, v1, u1)
               else if thissymbol \<ge> length (symbol u1) then Inl Out_of_bounds
               else
                 (let u2 = u1\<lparr>fpOut := fpOut u1 @ [symbol u1 ! thissymbol]\<rparr>;
                      v2 = v1\<lparr>bytes_out := bytes_out v1 + 1\<rparr>;
                      v3 = v2\<lparr>thislevel := 0, thiscode := 0\<rparr>
                  in Inr (Running, v3, u2)))
         else
           (let v2 = v1\<lparr>thislevel := thislevel v1 + 1\<rparr>;
                u1 = (if thislevel v2 > treelevels unpackd
                      then maybe_errx File_corrupt unpackd else unpackd)
            in Inr (Running, v2, u1))))"

text \<open>The \<^verbatim>\<open>for\<close> loop: \<open>decode_bits thisbyte 8\<close> handles \<open>i = 7, 6, ..., 0\<close>.\<close>

fun decode_bits ::
  "byte \<Rightarrow> nat \<Rightarrow> decode_vars \<times> unpack_descriptor
     \<Rightarrow> fault + (flow \<times> decode_vars \<times> unpack_descriptor)" where
  "decode_bits thisbyte 0 s = Inr (Running, s)"
| "decode_bits thisbyte (Suc i) s =
     (case decode_bit thisbyte i s of
        Inl f \<Rightarrow> Inl f
      | Inr (Finished, s') \<Rightarrow> Inr (Finished, s')
      | Inr (Running, s') \<Rightarrow> decode_bits thisbyte i s')"

text \<open>
  The \<^verbatim>\<open>while ((thisbyte = fgetc(fpIn)) != EOF)\<close> loop, over the bytes still in the
  input stream.  It returns the unread rest of the stream and how the loop was left:
  \<open>Finished\<close> by the \<^verbatim>\<open>goto\<close>, \<open>Running\<close> by \<^verbatim>\<open>EOF\<close>.
\<close>

fun decode_bytes ::
  "byte list \<Rightarrow> decode_vars \<times> unpack_descriptor
     \<Rightarrow> fault + (flow \<times> byte list \<times> decode_vars \<times> unpack_descriptor)" where
  "decode_bytes [] s = Inr (Running, [], s)"
| "decode_bytes (thisbyte # rest) s =
     (case decode_bits thisbyte 8 s of
        Inl f \<Rightarrow> Inl f
      | Inr (Finished, s') \<Rightarrow> Inr (Finished, rest, s')
      | Inr (Running, s') \<Rightarrow> decode_bytes rest s')"

text \<open>The code after the label \<^verbatim>\<open>finished\<close>, lines 308 to 310.\<close>

definition finished :: "decode_vars \<Rightarrow> unpack_descriptor \<Rightarrow> unpack_descriptor" where
  "finished v unpackd =
     (let u1 = (if bytes_out v \<noteq> uncompressed_size unpackd
                then maybe_errx Premature_EOF unpackd else unpackd)
      in u1\<lparr>uncompressed_size := bytes_out v\<rparr>)"

definition unpack_decode :: "unpack_descriptor \<Rightarrow> fault + unpack_descriptor" where
  "unpack_decode unpackd =
     (case decode_bytes (fpIn unpackd)
             (\<lparr>thislevel = 0, thiscode = 0, bytes_out = 0\<rparr>, unpackd) of
        Inl f \<Rightarrow> Inl f
      | Inr (fl, rest, v, u) \<Rightarrow> Inr (finished v (u\<lparr>fpIn := rest\<rparr>)))"

subsection \<open>unpack\<close>

text \<open>
  The result is the returned \<open>uncompressed_size\<close> together with the final descriptor,
  whose \<open>fpOut\<close> is the content of the output file.
\<close>

definition unpack :: "byte list \<Rightarrow> fault + (nat \<times> unpack_descriptor)" where
  "unpack input =
     (case unpack_parse_header input of
        Inl f \<Rightarrow> Inl f
      | Inr unpackd \<Rightarrow>
          (case unpack_decode unpackd of
             Inl f \<Rightarrow> Inl f
           | Inr u \<Rightarrow> Inr (uncompressed_size u, u)))"

text \<open>
  How the decode loop of a whole run was left: the flow value of \<open>decode_bytes\<close> on
  the descriptor that \<open>unpack_parse_header\<close> built.
\<close>

definition decode_exit :: "byte list \<Rightarrow> fault + flow" where
  "decode_exit input =
     (case unpack_parse_header input of
        Inl f \<Rightarrow> Inl f
      | Inr unpackd \<Rightarrow>
          (case decode_bytes (fpIn unpackd)
                  (\<lparr>thislevel = 0, thiscode = 0, bytes_out = 0\<rparr>, unpackd) of
             Inl f \<Rightarrow> Inl f
           | Inr (fl, rest, v, u) \<Rightarrow> Inr fl))"

subsection \<open>Observations of a run\<close>

text \<open>The returned byte count with the bytes written to the output stream.\<close>

definition unpack_output :: "byte list \<Rightarrow> fault + (nat \<times> byte list)" where
  "unpack_output input =
     (case unpack input of Inl f \<Rightarrow> Inl f | Inr (n, u) \<Rightarrow> Inr (n, fpOut u))"

text \<open>The hook calls of a run, in order.\<close>

definition unpack_reported :: "byte list \<Rightarrow> fault + message list" where
  "unpack_reported input =
     (case unpack input of Inl f \<Rightarrow> Inl f | Inr (n, u) \<Rightarrow> Inr (reported u))"

text \<open>
  The number of bytes that the symbol table loop (lines 229 to 237) takes from the
  stream: what \<open>unpack_parse_header\<close> consumed, less the depth byte and the
  \<open>treelevels + 1\<close> count bytes (for a file that holds all its count bytes).
\<close>

definition symbol_bytes_consumed :: "byte list \<Rightarrow> fault + nat" where
  "symbol_bytes_consumed input =
     (case unpack_parse_header input of
        Inl f \<Rightarrow> Inl f
      | Inr u \<Rightarrow> Inr (length input - length (fpIn u) - 1 - Suc (treelevels u)))"

text \<open>
  A file with depth byte 25 and an otherwise well-formed tree: the levels 0 to 23 have
  one leaf each, the last level has two (the count byte 0 stands for one symbol and
  EOB).  The symbols are \<open>0x41\<close> to \<open>0x59\<close>.  The bit stream is the code of the first
  symbol, \<open>1\<close>, followed by the code of EOB, twenty-four \<open>0\<close> and a \<open>1\<close>, and
  padding.
\<close>

definition depth_25_file :: "byte list" where
  "depth_25_file =
     [25] @ replicate 24 1 @ [0] @
     [0x41, 0x42, 0x43, 0x44, 0x45, 0x46, 0x47, 0x48, 0x49, 0x4A, 0x4B, 0x4C, 0x4D,
      0x4E, 0x4F, 0x50, 0x51, 0x52, 0x53, 0x54, 0x55, 0x56, 0x57, 0x58, 0x59] @
     [0x80, 0x00, 0x00, 0x40]"

subsection \<open>Closed forms used in the proofs\<close>

text \<open>
  What \<open>k\<close> successive calls of \<open>fgetc\<close> deliver, each cast to a byte: the next
  bytes of the stream, then \<open>0xFF\<close> for every call at the end of the stream.
\<close>

fun next_bytes :: "nat \<Rightarrow> byte list \<Rightarrow> byte list" where
  "next_bytes 0 bs = []"
| "next_bytes (Suc k) [] = 255 # next_bytes k []"
| "next_bytes (Suc k) (b # bs) = b # next_bytes k bs"

text \<open>The start offsets of consecutive levels with the given sizes, from offset \<open>e\<close>.\<close>

fun level_offsets :: "nat \<Rightarrow> nat list \<Rightarrow> nat list" where
  "level_offsets e [] = []"
| "level_offsets e (c # cs) = e # level_offsets (e + c) cs"

text \<open>
  The descriptor as lines 175 to 240 leave it, for a depth byte \<open>n + 1\<close> followed by
  the bytes \<open>rest\<close>; \<open>unpackd_fill_inodesin\<close> has not run yet.
\<close>

definition header_tables :: "nat \<Rightarrow> byte list \<Rightarrow> unpack_descriptor" where
  "header_tables n rest =
     (let cs = map unat (next_bytes (Suc n) rest);
          total = sum_list cs + 1;
          table = drop (Suc n) rest
      in \<lparr>symbol_size = total, treelevels = n,
          symbolsin = cs[n := cs ! n + 2],
          inodesin = replicate (Suc n) 0,
          symbol = next_bytes total table,
          symbol_eob = total,
          tree = level_offsets 0 (cs[n := cs ! n + 1]),
          uncompressed_size = 0,
          fpIn = drop total table,
          fpOut = [],
          reported =
            (if HTREE_MAXLEVEL < Suc n then [Huffman_tree_has_insane_levels] else []) @
            replicate (Suc n - length rest) File_appears_to_be_truncated @
            (if 256 < total then [Bad_symbol_table] else []) @
            replicate (total - length table) Symbol_table_truncated\<rparr>)"

text \<open>
  The states of the bit loop between two symbols, for the tables that a file starting
  with depth byte 1 and count byte 2 produces: one level with count \<open>2 + 2\<close>, no
  internal node, and three bytes in the symbol table.
\<close>

definition one_level_state :: "decode_vars \<times> unpack_descriptor \<Rightarrow> bool" where
  "one_level_state s = (case s of (v, d) \<Rightarrow>
     thislevel v = 0 \<and> thiscode v = 0 \<and> inodesin d = [0] \<and> symbolsin d = [4] \<and>
     tree d = [0] \<and> symbol_eob d = 3 \<and> length (symbol d) = 3)"

section \<open>Properties\<close>

subsection \<open>Auxiliary facts\<close>

declare read_symbolsin.simps [simp del] read_level_symbols.simps [simp del]
  read_symbols.simps [simp del] unpackd_fill_inodesin.simps [simp del]

lemma fill_frame:
  "symbolsin (unpackd_fill_inodesin u l) = symbolsin u \<and>
   treelevels (unpackd_fill_inodesin u l) = treelevels u \<and>
   symbol (unpackd_fill_inodesin u l) = symbol u \<and>
   symbol_eob (unpackd_fill_inodesin u l) = symbol_eob u \<and>
   symbol_size (unpackd_fill_inodesin u l) = symbol_size u \<and>
   tree (unpackd_fill_inodesin u l) = tree u \<and>
   uncompressed_size (unpackd_fill_inodesin u l) = uncompressed_size u \<and>
   fpIn (unpackd_fill_inodesin u l) = fpIn u \<and>
   fpOut (unpackd_fill_inodesin u l) = fpOut u \<and>
   reported (unpackd_fill_inodesin u l) = reported u \<and>
   length (inodesin (unpackd_fill_inodesin u l)) = length (inodesin u)"
proof (induction u l rule: unpackd_fill_inodesin.induct)
  case (1 unpackd level)
  show ?case
  proof (cases "level < treelevels unpackd")
    case True
    with 1 show ?thesis
      by (subst (1 2 3 4 5 6 7 8 9 10 11) unpackd_fill_inodesin.simps) (simp add: Let_def)
  next
    case False
    then show ?thesis
      by (subst (1 2 3 4 5 6 7 8 9 10 11) unpackd_fill_inodesin.simps) simp
  qed
qed

lemma fill_table:
  "level \<le> treelevels u \<Longrightarrow> treelevels u < length (inodesin u) \<Longrightarrow>
   inodesin (unpackd_fill_inodesin u level) ! treelevels u = 0 \<and>
   (\<forall>L. level \<le> L \<and> L < treelevels u \<longrightarrow>
      inodesin (unpackd_fill_inodesin u level) ! L =
        (inodesin (unpackd_fill_inodesin u level) ! (L + 1) + symbolsin u ! (L + 1)) div 2) \<and>
   (\<forall>L. L < level \<longrightarrow> inodesin (unpackd_fill_inodesin u level) ! L = inodesin u ! L)"
proof (induction u level rule: unpackd_fill_inodesin.induct)
  case (1 unpackd level)
  show ?case
  proof (cases "level < treelevels unpackd")
    case True
    define r where "r = unpackd_fill_inodesin unpackd (level + 1)"
    have eq: "unpackd_fill_inodesin unpackd level =
        r\<lparr>inodesin := (inodesin r)[level := (inodesin r ! (level + 1) + symbolsin r ! (level + 1)) div 2]\<rparr>"
      using True by (subst unpackd_fill_inodesin.simps) (simp add: Let_def r_def)
    have fr: "symbolsin r = symbolsin unpackd" "length (inodesin r) = length (inodesin unpackd)"
      using fill_frame [of unpackd "level + 1"] by (simp_all add: r_def)
    have ih: "inodesin r ! treelevels unpackd = 0"
      "\<And>L. level + 1 \<le> L \<Longrightarrow> L < treelevels unpackd \<Longrightarrow>
          inodesin r ! L = (inodesin r ! (L + 1) + symbolsin unpackd ! (L + 1)) div 2"
      "\<And>L. L < level + 1 \<Longrightarrow> inodesin r ! L = inodesin unpackd ! L"
      using 1(1) [OF True] True 1(3) by (simp_all add: r_def)
    show ?thesis
      using True 1(3) ih fr by (auto simp: eq nth_list_update)
  next
    case False
    with 1(2) have "level = treelevels unpackd" by simp
    then show ?thesis
      using 1(3) by (subst (1 2 3 4) unpackd_fill_inodesin.simps) (simp add: nth_list_update)
  qed
qed

lemma length_next_bytes: "length (next_bytes k bs) = k"
  by (induction k bs rule: next_bytes.induct) simp_all

lemma next_bytes_enough: "k \<le> length bs \<Longrightarrow> next_bytes k bs = take k bs"
  by (induction k bs rule: next_bytes.induct) simp_all

lemma read_symbolsin_char:
  "i \<le> Suc n \<Longrightarrow> length (symbolsin u) = Suc n \<Longrightarrow>
   read_symbolsin n i u =
     u\<lparr>symbolsin := take i (symbolsin u) @ map unat (next_bytes (Suc n - i) (fpIn u)),
       symbol_size := symbol_size u + sum_list (map unat (next_bytes (Suc n - i) (fpIn u))),
       fpIn := drop (Suc n - i) (fpIn u),
       reported := reported u @
         replicate (Suc n - i - length (fpIn u)) File_appears_to_be_truncated\<rparr>"
proof (induction "Suc n - i" arbitrary: i u)
  case 0
  then have "i = Suc n" by simp
  then show ?case using 0
    by (subst read_symbolsin.simps) simp
next
  case (Suc k)
  then have i: "i \<le> n" and k: "Suc n - i = Suc k" "k = Suc n - (i + 1)" by simp_all
  show ?case
  proof (cases "fpIn u")
    case Nil
    define u4 where "u4 = u\<lparr>reported := reported u @ [File_appears_to_be_truncated],
        symbolsin := (symbolsin u)[i := 255], symbol_size := symbol_size u + 255\<rparr>"
    have step: "read_symbolsin n i u = read_symbolsin n (i + 1) u4"
      using i Nil Suc.prems
      by (subst read_symbolsin.simps)
         (simp add: fgetc_def maybe_err_def byte_of_def Let_def u4_def)
    have "read_symbolsin n (i + 1) u4 = u4\<lparr>symbolsin := take (i + 1) (symbolsin u4) @ map unat (next_bytes (Suc n - (i + 1)) (fpIn u4)),
       symbol_size := symbol_size u4 + sum_list (map unat (next_bytes (Suc n - (i + 1)) (fpIn u4))),
       fpIn := drop (Suc n - (i + 1)) (fpIn u4),
       reported := reported u4 @
         replicate (Suc n - (i + 1) - length (fpIn u4)) File_appears_to_be_truncated\<rparr>"
      using Suc.hyps(1) [of "i + 1" u4] Suc.hyps(2) i Suc.prems by (simp add: u4_def)
    then show ?thesis
      using i Nil Suc.prems k
      by (simp add: step u4_def take_Suc_conv_app_nth replicate_append_same)
  next
    case (Cons b bs)
    define u4 where "u4 = u\<lparr>fpIn := bs,
        symbolsin := (symbolsin u)[i := unat b], symbol_size := symbol_size u + unat b\<rparr>"
    have step: "read_symbolsin n i u = read_symbolsin n (i + 1) u4"
      using i Cons Suc.prems
      by (subst read_symbolsin.simps)
         (simp add: fgetc_def maybe_err_def byte_of_def Let_def u4_def)
    have "read_symbolsin n (i + 1) u4 = u4\<lparr>symbolsin := take (i + 1) (symbolsin u4) @ map unat (next_bytes (Suc n - (i + 1)) (fpIn u4)),
       symbol_size := symbol_size u4 + sum_list (map unat (next_bytes (Suc n - (i + 1)) (fpIn u4))),
       fpIn := drop (Suc n - (i + 1)) (fpIn u4),
       reported := reported u4 @
         replicate (Suc n - (i + 1) - length (fpIn u4)) File_appears_to_be_truncated\<rparr>"
      using Suc.hyps(1) [of "i + 1" u4] Suc.hyps(2) i Suc.prems by (simp add: u4_def)
    then show ?thesis
      using i Cons Suc.prems k
      by (simp add: step u4_def take_Suc_conv_app_nth)
  qed
qed


lemma next_bytes_add:
  "next_bytes (a + b) bs = next_bytes a bs @ next_bytes b (drop a bs)"
  by (induction a bs rule: next_bytes.induct) simp_all

lemma read_level_symbols_char:
  "j \<le> m \<Longrightarrow> symbol_eob u + (m - j) \<le> length (symbol u) \<Longrightarrow>
   read_level_symbols m j u =
     u\<lparr>symbol := take (symbol_eob u) (symbol u) @ next_bytes (m - j) (fpIn u) @
                  drop (symbol_eob u + (m - j)) (symbol u),
       symbol_eob := symbol_eob u + (m - j),
       fpIn := drop (m - j) (fpIn u),
       reported := reported u @
         replicate (m - j - length (fpIn u)) Symbol_table_truncated\<rparr>"
proof (induction "m - j" arbitrary: j u)
  case 0
  then have "j = m" by simp
  then show ?case
    by (subst read_level_symbols.simps) simp
next
  case (Suc k)
  then have j: "j < m" and k: "m - j = Suc k" "k = m - (j + 1)" by simp_all
  have e: "symbol_eob u < length (symbol u)" "symbol_eob u + 1 + k \<le> length (symbol u)"
    using Suc.prems k by simp_all
  show ?case
  proof (cases "fpIn u")
    case Nil
    define u3 where "u3 = u\<lparr>reported := reported u @ [Symbol_table_truncated],
        symbol := (symbol u)[symbol_eob u := 255], symbol_eob := symbol_eob u + 1\<rparr>"
    have step: "read_level_symbols m j u = read_level_symbols m (j + 1) u3"
      using j Nil
      by (subst read_level_symbols.simps)
         (simp add: fgetc_def maybe_errx_def byte_of_def Let_def u3_def)
    have "read_level_symbols m (j + 1) u3 =
       u3\<lparr>symbol := take (symbol_eob u3) (symbol u3) @ next_bytes (m - (j + 1)) (fpIn u3) @
                  drop (symbol_eob u3 + (m - (j + 1))) (symbol u3),
       symbol_eob := symbol_eob u3 + (m - (j + 1)),
       fpIn := drop (m - (j + 1)) (fpIn u3),
       reported := reported u3 @
         replicate (m - (j + 1) - length (fpIn u3)) Symbol_table_truncated\<rparr>"
      using Suc.hyps(1) [of "j + 1" u3] Suc.hyps(2) j e k by (simp add: u3_def)
    then show ?thesis
      using j Nil e k
      by (simp add: step u3_def take_Suc_conv_app_nth replicate_append_same)
  next
    case (Cons b bs)
    define u3 where "u3 = u\<lparr>fpIn := bs,
        symbol := (symbol u)[symbol_eob u := b], symbol_eob := symbol_eob u + 1\<rparr>"
    have step: "read_level_symbols m j u = read_level_symbols m (j + 1) u3"
      using j Cons
      by (subst read_level_symbols.simps)
         (simp add: fgetc_def maybe_errx_def byte_of_def Let_def u3_def)
    have "read_level_symbols m (j + 1) u3 =
       u3\<lparr>symbol := take (symbol_eob u3) (symbol u3) @ next_bytes (m - (j + 1)) (fpIn u3) @
                  drop (symbol_eob u3 + (m - (j + 1))) (symbol u3),
       symbol_eob := symbol_eob u3 + (m - (j + 1)),
       fpIn := drop (m - (j + 1)) (fpIn u3),
       reported := reported u3 @
         replicate (m - (j + 1) - length (fpIn u3)) Symbol_table_truncated\<rparr>"
      using Suc.hyps(1) [of "j + 1" u3] Suc.hyps(2) j e k by (simp add: u3_def)
    then show ?thesis
      using j Cons e k
      by (simp add: step u3_def take_Suc_conv_app_nth)
  qed
qed

lemma replicate_truncated:
  "replicate (a - l) x @ replicate (b - (l - a)) x = replicate (a + b - l) (x::'a)"
proof -
  have "(a - l) + (b - (l - a)) = a + b - l" by arith
  then show ?thesis by (simp add: replicate_add [symmetric])
qed

lemma read_symbols_char:
  "i \<le> Suc n \<Longrightarrow> length (symbolsin u) = Suc n \<Longrightarrow> length (tree u) = Suc n \<Longrightarrow>
   symbol_eob u + sum_list (drop i (symbolsin u)) \<le> length (symbol u) \<Longrightarrow>
   read_symbols n i u =
     u\<lparr>tree := take i (tree u) @ level_offsets (symbol_eob u) (drop i (symbolsin u)),
       symbol := take (symbol_eob u) (symbol u) @
                 next_bytes (sum_list (drop i (symbolsin u))) (fpIn u) @
                 drop (symbol_eob u + sum_list (drop i (symbolsin u))) (symbol u),
       symbol_eob := symbol_eob u + sum_list (drop i (symbolsin u)),
       fpIn := drop (sum_list (drop i (symbolsin u))) (fpIn u),
       reported := reported u @
         replicate (sum_list (drop i (symbolsin u)) - length (fpIn u)) Symbol_table_truncated\<rparr>"
proof (induction "Suc n - i" arbitrary: i u)
  case 0
  then have "i = Suc n" by simp
  then show ?case using 0
    by (subst read_symbols.simps) simp
next
  case (Suc k)
  then have i: "i \<le> n" "i < length (symbolsin u)" "i < length (tree u)" by simp_all
  define c where "c = symbolsin u ! i"
  define t where "t = sum_list (drop (i + 1) (symbolsin u))"
  have dr: "drop i (symbolsin u) = c # drop (Suc i) (symbolsin u)"
    using i by (simp add: c_def Cons_nth_drop_Suc)
  have tot: "sum_list (drop i (symbolsin u)) = c + t"
    by (simp add: dr t_def)
  define u1 where "u1 = u\<lparr>tree := (tree u)[i := symbol_eob u]\<rparr>"
  define u2 where "u2 = read_level_symbols c 0 u1"
  have step: "read_symbols n i u = read_symbols n (i + 1) u2"
    using i by (subst read_symbols.simps) (simp add: Let_def u1_def u2_def c_def)
  have u2: "u2 = u1\<lparr>symbol := take (symbol_eob u1) (symbol u1) @ next_bytes c (fpIn u1) @
                  drop (symbol_eob u1 + c) (symbol u1),
       symbol_eob := symbol_eob u1 + c,
       fpIn := drop c (fpIn u1),
       reported := reported u1 @ replicate (c - length (fpIn u1)) Symbol_table_truncated\<rparr>"
    unfolding u2_def using read_level_symbols_char [of 0 c u1] Suc.prems(4) tot
    by (simp add: u1_def)
  have len: "length (next_bytes c (fpIn u)) = c" by (rule length_next_bytes)
  have ih: "read_symbols n (i + 1) u2 =
     u2\<lparr>tree := take (i + 1) (tree u2) @ level_offsets (symbol_eob u2) (drop (i + 1) (symbolsin u2)),
       symbol := take (symbol_eob u2) (symbol u2) @
                 next_bytes (sum_list (drop (i + 1) (symbolsin u2))) (fpIn u2) @
                 drop (symbol_eob u2 + sum_list (drop (i + 1) (symbolsin u2))) (symbol u2),
       symbol_eob := symbol_eob u2 + sum_list (drop (i + 1) (symbolsin u2)),
       fpIn := drop (sum_list (drop (i + 1) (symbolsin u2))) (fpIn u2),
       reported := reported u2 @
         replicate (sum_list (drop (i + 1) (symbolsin u2)) - length (fpIn u2)) Symbol_table_truncated\<rparr>"
    using Suc.hyps(1) [of "i + 1" u2] Suc.hyps(2) i Suc.prems tot len
    by (simp add: u2 u1_def t_def)
  have f2: "symbolsin u2 = symbolsin u" "tree u2 = (tree u)[i := symbol_eob u]"
    "symbol_eob u2 = symbol_eob u + c" "fpIn u2 = drop c (fpIn u)"
    "symbol u2 = take (symbol_eob u) (symbol u) @ next_bytes c (fpIn u) @
                  drop (symbol_eob u + c) (symbol u)"
    "reported u2 = reported u @ replicate (c - length (fpIn u)) Symbol_table_truncated"
    by (simp_all add: u2 u1_def)
  have e: "symbol_eob u \<le> length (symbol u)" "symbol_eob u + c \<le> length (symbol u)"
    using Suc.prems(4) tot by simp_all
  have tr: "take (i + 1) ((tree u)[i := symbol_eob u]) = take i (tree u) @ [symbol_eob u]"
    using i by (simp add: take_Suc_conv_app_nth)
  have sy: "take (symbol_eob u + c) (take (symbol_eob u) (symbol u) @ next_bytes c (fpIn u) @
                  drop (symbol_eob u + c) (symbol u)) =
            take (symbol_eob u) (symbol u) @ next_bytes c (fpIn u)"
    using e len by simp
  have sd: "drop (symbol_eob u + c + t) (take (symbol_eob u) (symbol u) @ next_bytes c (fpIn u) @
                  drop (symbol_eob u + c) (symbol u)) =
            drop (symbol_eob u + (c + t)) (symbol u)"
    using e len by (simp add: add.commute add.left_commute)
  have rp: "(reported u @ replicate (c - length (fpIn u)) Symbol_table_truncated) @
        replicate (t - length (drop c (fpIn u))) Symbol_table_truncated =
        reported u @ replicate (c + t - length (fpIn u)) Symbol_table_truncated"
    by (simp add: replicate_truncated)
  have "read_symbols n i u =
     u2\<lparr>tree := (take i (tree u) @ [symbol_eob u]) @ level_offsets (symbol_eob u + c) (drop (i + 1) (symbolsin u)),
       symbol := (take (symbol_eob u) (symbol u) @ next_bytes c (fpIn u)) @
                 next_bytes t (drop c (fpIn u)) @
                 drop (symbol_eob u + (c + t)) (symbol u),
       symbol_eob := symbol_eob u + c + t,
       fpIn := drop t (drop c (fpIn u)),
       reported := reported u @ replicate (c + t - length (fpIn u)) Symbol_table_truncated\<rparr>"
    unfolding step ih f2 tr t_def [symmetric] sy sd rp ..
  also have "\<dots> = u\<lparr>tree := take i (tree u) @ level_offsets (symbol_eob u) (c # drop (Suc i) (symbolsin u)),
       symbol := take (symbol_eob u) (symbol u) @
                 next_bytes (c + t) (fpIn u) @
                 drop (symbol_eob u + (c + t)) (symbol u),
       symbol_eob := symbol_eob u + (c + t),
       fpIn := drop (c + t) (fpIn u),
       reported := reported u @
         replicate (c + t - length (fpIn u)) Symbol_table_truncated\<rparr>"
    by (simp add: u2 u1_def next_bytes_add add.commute)
  finally show ?case
    unfolding tot dr by (simp add: t_def)
qed


lemma sum_list_update_add:
  "n < length xs \<Longrightarrow> sum_list (xs[n := xs ! n + k]) = sum_list xs + (k::nat)"
  by (induction xs arbitrary: n) (auto split: nat.splits)

lemma sum_list_update_Suc:
  "n < length xs \<Longrightarrow> sum_list (xs[n := Suc (xs ! n)]) = Suc (sum_list xs)"
  using sum_list_update_add [of n xs 1] by simp

lemma unpack_parse_header_tables:
  assumes "unat hdr = Suc n"
  shows "unpack_parse_header (hdr # rest) =
           Inr (unpackd_fill_inodesin (header_tables n rest) 0)"
  using assms
  by (simp add: unpack_parse_header_def Let_def maybe_errx_def fresh_descriptor_def
      read_symbolsin_char read_symbols_char header_tables_def sum_list_update_Suc
      length_next_bytes)

lemma shift_or_bit:
  "push_bit 1 (c::nat) OR (drop_bit i (unat (b::byte)) AND 1) = 2 * c + of_bool (bit b i)"
proof -
  have "bit (unat b) i = bit b i"
    by (simp add: bit_unsigned_iff)
  then have a: "drop_bit i (unat b) AND 1 = (of_bool (bit b i) :: nat)"
    by (simp add: and_one_eq mod_2_eq_odd flip: bit_iff_odd_drop_bit)
  have o: "2 * c OR 1 = 2 * c + (1::nat)"
    using or_one_eq [of "2 * c"] by simp
  show ?thesis
    unfolding a using o by (cases "bit b i") (simp_all add: push_bit_eq_mult mult.commute)
qed

lemma decode_bit_frame:
  assumes "decode_bit thisbyte i (v, d) = Inr (fl, v', d')"
  shows "uncompressed_size d' = uncompressed_size d"
    and "bytes_out v = length (fpOut d) \<Longrightarrow> bytes_out v' = length (fpOut d')"
    and "inodesin d' = inodesin d" and "symbolsin d' = symbolsin d"
    and "tree d' = tree d" and "symbol d' = symbol d" and "symbol_eob d' = symbol_eob d"
    and "treelevels d' = treelevels d" and "fpIn d' = fpIn d"
  using assms
  by (auto simp: decode_bit_def Let_def maybe_errx_def split: if_splits)

lemma decode_bits_frame:
  assumes "decode_bits thisbyte k (v, d) = Inr (fl, v', d')"
  shows "uncompressed_size d' = uncompressed_size d \<and>
    (bytes_out v = length (fpOut d) \<longrightarrow> bytes_out v' = length (fpOut d'))"
  using assms
proof (induction k arbitrary: v d)
  case 0
  then show ?case by simp
next
  case (Suc k)
  show ?case
  proof (cases "decode_bit thisbyte k (v, d)")
    case (Inl f)
    with Suc.prems show ?thesis by simp
  next
    case (Inr r)
    obtain fl1 v1 d1 where r: "r = (fl1, v1, d1)" by (cases r) auto
    note fr = decode_bit_frame(1,2) [OF Inr [unfolded r]]
    show ?thesis
    proof (cases fl1)
      case Running
      with Suc.prems Inr r have "decode_bits thisbyte k (v1, d1) = Inr (fl, v', d')" by simp
      from Suc.IH [OF this] fr show ?thesis by simp
    next
      case Finished
      with Suc.prems Inr r have "v' = v1" "d' = d1" by simp_all
      with fr show ?thesis by simp
    qed
  qed
qed

lemma decode_bytes_frame:
  assumes "decode_bytes bs (v, d) = Inr (fl, rest, v', d')"
  shows "uncompressed_size d' = uncompressed_size d \<and>
    (bytes_out v = length (fpOut d) \<longrightarrow> bytes_out v' = length (fpOut d'))"
  using assms
proof (induction bs arbitrary: v d)
  case Nil
  then show ?case by simp
next
  case (Cons b bs)
  show ?case
  proof (cases "decode_bits b 8 (v, d)")
    case (Inl f)
    with Cons.prems show ?thesis by simp
  next
    case (Inr r)
    obtain fl1 v1 d1 where r: "r = (fl1, v1, d1)" by (cases r) auto
    note fr = decode_bits_frame [OF Inr [unfolded r]]
    show ?thesis
    proof (cases fl1)
      case Running
      with Cons.prems Inr r have "decode_bytes bs (v1, d1) = Inr (fl, rest, v', d')" by simp
      from Cons.IH [OF this] fr show ?thesis by simp
    next
      case Finished
      with Cons.prems Inr r have "v' = v1" "d' = d1" by simp_all
      with fr show ?thesis by simp
    qed
  qed
qed

lemma header_tables_fields:
  "treelevels (header_tables n rest) = n"
  "length (inodesin (header_tables n rest)) = Suc n"
  "uncompressed_size (header_tables n rest) = 0"
  "fpOut (header_tables n rest) = []"
  by (simp_all add: header_tables_def Let_def)

lemma parse_cases:
  assumes "unpack_parse_header input = Inr u"
  obtains hdr rest n where "input = hdr # rest" "unat hdr = Suc n"
    "u = unpackd_fill_inodesin (header_tables n rest) 0"
proof (cases input)
  case Nil
  with assms show ?thesis by (simp add: unpack_parse_header_def)
next
  case (Cons hdr rest)
  show ?thesis
  proof (cases "unat hdr")
    case 0
    with assms Cons show ?thesis by (simp add: unpack_parse_header_def Let_def maybe_errx_def)
  next
    case (Suc n)
    with assms Cons unpack_parse_header_tables [OF Suc, of rest] that show ?thesis by simp
  qed
qed

lemma level_offsets_nth:
  "i < length cs \<Longrightarrow> level_offsets e cs ! i = e + sum_list (take i cs)"
proof (induction cs arbitrary: e i)
  case Nil
  then show ?case by simp
next
  case (Cons c cs)
  then show ?case by (cases i) simp_all
qed

lemma sum_list_butlast_nth:
  "cs \<noteq> [] \<Longrightarrow> sum_list cs = sum_list (take (length cs - 1) cs) + (cs ! (length cs - 1) :: nat)"
proof (induction cs rule: rev_induct)
  case Nil
  then show ?case by simp
next
  case (snoc x xs)
  then show ?case by simp
qed

lemma header_tables_counts:
  fixes counts rest :: "byte list" and n total :: nat
  assumes "counts \<noteq> []"
  defines "n \<equiv> length counts - 1"
  defines "total \<equiv> sum_list (map unat counts) + 1"
  shows "symbolsin (header_tables n (counts @ rest)) =
           (map unat counts)[n := unat (last counts) + 2]"
    and "symbol (header_tables n (counts @ rest)) = next_bytes total rest"
    and "symbol_eob (header_tables n (counts @ rest)) = total"
    and "fpIn (header_tables n (counts @ rest)) = drop total rest"
    and "tree (header_tables n (counts @ rest)) ! n + unat (last counts) + 1 = total"
proof -
  have sn: "Suc n = length counts" using assms(1) by (simp add: n_def)
  have nb: "next_bytes (Suc n) (counts @ rest) = counts"
    by (simp add: sn next_bytes_enough)
  have la: "map unat counts ! n = unat (last counts)"
    using assms(1) sn by (simp add: last_conv_nth n_def)
  have ht: "header_tables n (counts @ rest) =
     \<lparr>symbol_size = total, treelevels = n,
      symbolsin = (map unat counts)[n := unat (last counts) + 2],
      inodesin = replicate (Suc n) 0,
      symbol = next_bytes total rest,
      symbol_eob = total,
      tree = level_offsets 0 ((map unat counts)[n := unat (last counts) + 1]),
      uncompressed_size = 0,
      fpIn = drop total rest,
      fpOut = [],
      reported =
        (if HTREE_MAXLEVEL < Suc n then [Huffman_tree_has_insane_levels] else []) @
        replicate (Suc n - length (counts @ rest)) File_appears_to_be_truncated @
        (if 256 < total then [Bad_symbol_table] else []) @
        replicate (total - length rest) Symbol_table_truncated\<rparr>"
    unfolding header_tables_def Let_def nb la total_def [symmetric]
    by (simp add: sn [symmetric])
  show "symbolsin (header_tables n (counts @ rest)) =
           (map unat counts)[n := unat (last counts) + 2]"
    by (simp add: ht)
  show "symbol (header_tables n (counts @ rest)) = next_bytes total rest"
    by (simp add: ht)
  show "symbol_eob (header_tables n (counts @ rest)) = total"
    by (simp add: ht)
  show "fpIn (header_tables n (counts @ rest)) = drop total rest"
    by (simp add: ht)
  have "level_offsets 0 ((map unat counts)[n := map unat counts ! n + 1]) ! n =
          sum_list (take n (map unat counts))"
    using sn by (simp add: level_offsets_nth)
  moreover have "sum_list (map unat counts) =
      sum_list (take n (map unat counts)) + map unat counts ! n"
    using sum_list_butlast_nth [of "map unat counts"] assms(1) by (simp add: n_def)
  ultimately show "tree (header_tables n (counts @ rest)) ! n + unat (last counts) + 1 = total"
    by (simp add: ht la) (simp add: total_def)
qed

lemma finished_fields:
  "uncompressed_size (finished v u) = bytes_out v"
  "fpOut (finished v u) = fpOut u"
  by (simp_all add: finished_def Let_def maybe_errx_def)


subsection \<open>Evaluation on concrete files\<close>

text \<open>
  Rewrite rules that run the loops on numerals, one round at a time.
\<close>

lemma unpack_parse_header_closed:
  "unat hdr \<noteq> 0 \<Longrightarrow> unpack_parse_header (hdr # rest) =
     Inr (unpackd_fill_inodesin (header_tables (unat hdr - 1) rest) 0)"
  using unpack_parse_header_tables [of hdr "unat hdr - 1" rest] by simp

lemma fill_unroll:
  "level < treelevels u \<Longrightarrow> unpackd_fill_inodesin u level =
     (let r = unpackd_fill_inodesin u (level + 1)
      in r\<lparr>inodesin := (inodesin r)
            [level := (inodesin r ! (level + 1) + symbolsin r ! (level + 1)) div 2]\<rparr>)"
  by (subst unpackd_fill_inodesin.simps) simp

lemma fill_stop:
  "\<not> level < treelevels u \<Longrightarrow>
     unpackd_fill_inodesin u level = u\<lparr>inodesin := (inodesin u)[level := 0]\<rparr>"
  by (subst unpackd_fill_inodesin.simps) simp

lemma decode_bits_numeral:
  "decode_bits thisbyte (numeral k) s =
     (case decode_bit thisbyte (pred_numeral k) s of
        Inl f \<Rightarrow> Inl f
      | Inr (Finished, s') \<Rightarrow> Inr (Finished, s')
      | Inr (Running, s') \<Rightarrow> decode_bits thisbyte (pred_numeral k) s')"
  by (simp add: numeral_eq_Suc)

lemma replicate_numeral:
  "replicate (numeral k) x = x # replicate (pred_numeral k) x"
  by (simp add: numeral_eq_Suc)

lemma next_bytes_numeral:
  "next_bytes (numeral k) [] = 255 # next_bytes (pred_numeral k) []"
  "next_bytes (numeral k) (b # bs) = b # next_bytes (pred_numeral k) bs"
  by (simp_all add: numeral_eq_Suc)

lemmas parse_eval = unpack_parse_header_closed header_tables_def Let_def HTREE_MAXLEVEL_def
  replicate_numeral next_bytes_numeral fill_unroll fill_stop

lemmas decode_eval = unpack_decode_def decode_bits_numeral decode_bit_def shift_or_bit
  finished_def Let_def maybe_errx_def

lemma unpack_AB:
  "unpack [2, 1, 0, 0x41, 0x42, 0x88] =
     Inr (2, \<lparr>symbol_size = 2, treelevels = 1, symbolsin = [1, 2], inodesin = [1, 0],
       symbol = [0x41, 0x42], symbol_eob = 2, tree = [0, 1],
       uncompressed_size = 2, fpIn = [], fpOut = [0x41, 0x42], reported = [Premature_EOF]\<rparr>)"
  by (simp add: unpack_def parse_eval decode_eval)


subsection \<open>Supporting facts\<close>

text \<open>
  A depth byte from 1 to 24 with complete tables of at most 256 symbols is parsed without
  any hook call; for any complete count table, "Huffman tree has insane levels" is
  reported exactly when the depth byte exceeds 24.
\<close>

lemma header_tables_reported:
  fixes counts rest :: "byte list"
  assumes "counts \<noteq> []"
  shows "reported (header_tables (length counts - 1) (counts @ rest)) =
     (if HTREE_MAXLEVEL < length counts then [Huffman_tree_has_insane_levels] else []) @
     (if 256 < sum_list (map unat counts) + 1 then [Bad_symbol_table] else []) @
     replicate (sum_list (map unat counts) + 1 - length rest) Symbol_table_truncated"
proof -
  have sn: "Suc (length counts - 1) = length counts" using assms by simp
  have nb: "next_bytes (length counts) (counts @ rest) = counts"
    by (simp add: next_bytes_enough)
  show ?thesis
    unfolding header_tables_def Let_def sn nb by simp
qed

lemma valid_depth_parses_silently:
  assumes "unat hdr = length counts" and "counts \<noteq> []" and "length counts \<le> 24"
    and "sum_list (map unat counts) + 1 \<le> 256"
    and "sum_list (map unat counts) + 1 \<le> length rest"
  shows "\<exists>u. unpack_parse_header (hdr # counts @ rest) = Inr u \<and> reported u = []"
proof -
  have sn: "unat hdr = Suc (length counts - 1)" using assms by simp
  let ?h = "header_tables (length counts - 1) (counts @ rest)"
  have "unpack_parse_header (hdr # counts @ rest) = Inr (unpackd_fill_inodesin ?h 0)"
    using unpack_parse_header_tables [OF sn] by simp
  moreover have "reported (unpackd_fill_inodesin ?h 0) = []"
    using fill_frame [of ?h 0] header_tables_reported [OF assms(2), of rest] assms(3-5)
    by (simp add: HTREE_MAXLEVEL_def)
  ultimately show ?thesis by blast
qed

lemma insane_levels_reported_iff:
  assumes "unat hdr = length counts" and "counts \<noteq> []"
  shows "\<exists>u. unpack_parse_header (hdr # counts @ rest) = Inr u \<and>
           (Huffman_tree_has_insane_levels \<in> set (reported u) \<longleftrightarrow> 24 < unat hdr)"
proof -
  have sn: "unat hdr = Suc (length counts - 1)" using assms by simp
  let ?h = "header_tables (length counts - 1) (counts @ rest)"
  have "unpack_parse_header (hdr # counts @ rest) = Inr (unpackd_fill_inodesin ?h 0)"
    using unpack_parse_header_tables [OF sn] by simp
  moreover have "Huffman_tree_has_insane_levels \<in> set (reported (unpackd_fill_inodesin ?h 0))
      \<longleftrightarrow> 24 < unat hdr"
    using fill_frame [of ?h 0] header_tables_reported [OF assms(2), of rest] assms(1)
    by (simp add: HTREE_MAXLEVEL_def)
  ultimately show ?thesis by blast
qed

text \<open>
  The \<^verbatim>\<open>goto finished\<close> is taken only in the leaf branch, at the position of
  \<open>symbol_eob\<close>, and that round writes nothing.
\<close>

lemma goto_finished_only_at_eob:
  assumes "decode_bit thisbyte i (v, d) = Inr (Finished, v', d')"
  shows "fpOut d' = fpOut d \<and> bytes_out v' = bytes_out v \<and>
         inodesin d ! thislevel v \<le> thiscode v' \<and>
         tree d ! thislevel v + (thiscode v' - inodesin d ! thislevel v) = symbol_eob d"
  using assms
  by (auto simp: decode_bit_def Let_def maybe_errx_def split: if_splits)

text \<open>
  "Premature EOF" is reported by no code but the comparison at the label
  \<^verbatim>\<open>finished\<close>, and there exactly when the byte count is not 0, whichever way the
  loop was left.
\<close>

lemma parse_no_premature_eof:
  assumes "unpack_parse_header input = Inr d"
  shows "Premature_EOF \<notin> set (reported d)"
proof -
  from assms obtain hdr rest n where
    d: "d = unpackd_fill_inodesin (header_tables n rest) 0"
    by (rule parse_cases)
  have "reported d = reported (header_tables n rest)"
    using fill_frame [of "header_tables n rest" 0] by (simp add: d)
  then show ?thesis
    by (simp add: header_tables_def Let_def)
qed

lemma decode_bit_no_premature_eof:
  assumes "decode_bit thisbyte i (v, d) = Inr (fl, v', d')"
    and "Premature_EOF \<notin> set (reported d)"
  shows "Premature_EOF \<notin> set (reported d')"
  using assms
  by (auto simp: decode_bit_def Let_def maybe_errx_def split: if_splits)

lemma decode_bits_no_premature_eof:
  assumes "decode_bits thisbyte k (v, d) = Inr (fl, v', d')"
    and "Premature_EOF \<notin> set (reported d)"
  shows "Premature_EOF \<notin> set (reported d')"
  using assms
proof (induction k arbitrary: v d)
  case 0
  then show ?case by simp
next
  case (Suc k)
  from Suc.prems(1) obtain fl1 v1 d1 where
    s: "decode_bit thisbyte k (v, d) = Inr (fl1, v1, d1)"
    by (auto split: sum.splits)
  note n1 = decode_bit_no_premature_eof [OF s Suc.prems(2)]
  show ?case
  proof (cases fl1)
    case Running
    with Suc.prems(1) s have "decode_bits thisbyte k (v1, d1) = Inr (fl, v', d')" by simp
    from Suc.IH [OF this n1] show ?thesis .
  next
    case Finished
    with Suc.prems(1) s n1 show ?thesis by simp
  qed
qed

lemma decode_bytes_no_premature_eof:
  assumes "decode_bytes bs (v, d) = Inr (fl, rest, v', d')"
    and "Premature_EOF \<notin> set (reported d)"
  shows "Premature_EOF \<notin> set (reported d')"
  using assms
proof (induction bs arbitrary: v d)
  case Nil
  then show ?case by simp
next
  case (Cons b bs)
  from Cons.prems(1) obtain fl1 v1 d1 where
    s: "decode_bits b 8 (v, d) = Inr (fl1, v1, d1)"
    by (auto split: sum.splits)
  note n1 = decode_bits_no_premature_eof [OF s Cons.prems(2)]
  show ?case
  proof (cases fl1)
    case Running
    with Cons.prems(1) s have "decode_bytes bs (v1, d1) = Inr (fl, rest, v', d')" by simp
    from Cons.IH [OF this n1] show ?thesis .
  next
    case Finished
    with Cons.prems(1) s n1 show ?thesis by simp
  qed
qed

lemma premature_eof_reported_iff:
  assumes "unpack input = Inr (n, u)"
  shows "Premature_EOF \<in> set (reported u) \<longleftrightarrow> n \<noteq> 0"
proof -
  from assms obtain d where d: "unpack_parse_header input = Inr d"
    by (auto simp: unpack_def split: sum.splits)
  from assms d obtain fl rest v u' where
    db: "decode_bytes (fpIn d) (\<lparr>thislevel = 0, thiscode = 0, bytes_out = 0\<rparr>, d) =
         Inr (fl, rest, v, u')"
    and f: "u = finished v (u'\<lparr>fpIn := rest\<rparr>)" and n: "n = uncompressed_size u"
    by (auto simp: unpack_def unpack_decode_def split: sum.splits)
  from d obtain hdr tl m where dd: "d = unpackd_fill_inodesin (header_tables m tl) 0"
    by (rule parse_cases)
  have d0: "uncompressed_size d = 0"
    using fill_frame [of "header_tables m tl" 0] by (simp add: dd header_tables_fields)
  from decode_bytes_frame [OF db] d0 have z: "uncompressed_size u' = 0" by simp
  have ne: "Premature_EOF \<notin> set (reported u')"
    by (rule decode_bytes_no_premature_eof [OF db parse_no_premature_eof [OF d]])
  have "n = bytes_out v" by (simp add: n f finished_fields)
  then show ?thesis
    using ne z by (simp add: f finished_def Let_def maybe_errx_def)
qed

text \<open>
  With depth byte 1 and count byte 2 every bit resolves to a leaf of the only level, so
  each byte of the bit stream after the first (which is read as the third symbol) yields
  eight bytes of output and the EOB position is never reached.
\<close>

lemma one_level_bit:
  assumes "one_level_state (v, d)"
  shows "\<exists>v' d'. decode_bit b i (v, d) = Inr (Running, v', d') \<and> one_level_state (v', d') \<and>
           bytes_out v' = bytes_out v + 1"
proof -
  define code where "code = 2 * thiscode v + (of_bool (bit b i) :: nat)"
  have c: "push_bit 1 (thiscode v) OR (drop_bit i (unat b) AND 1) = code"
    unfolding code_def by (rule shift_or_bit)
  have le: "code \<le> 1" using assms by (simp add: code_def one_level_state_def)
  show ?thesis
    using assms le unfolding decode_bit_def prod.case c
    by (simp add: Let_def one_level_state_def)
qed

lemma one_level_bits:
  assumes "one_level_state (v, d)"
  shows "\<exists>v' d'. decode_bits b k (v, d) = Inr (Running, v', d') \<and> one_level_state (v', d') \<and>
           bytes_out v' = bytes_out v + k"
  using assms
proof (induction k arbitrary: v d)
  case 0
  then show ?case by simp
next
  case (Suc k)
  from one_level_bit [OF Suc.prems, of b k] obtain v1 d1 where
    s: "decode_bit b k (v, d) = Inr (Running, v1, d1)" "one_level_state (v1, d1)"
       "bytes_out v1 = bytes_out v + 1"
    by blast
  from Suc.IH [OF s(2)] obtain v' d' where
    "decode_bits b k (v1, d1) = Inr (Running, v', d')" "one_level_state (v', d')"
    "bytes_out v' = bytes_out v1 + k"
    by blast
  with s show ?case by simp
qed

lemma one_level_bytes:
  assumes "one_level_state (v, d)"
  shows "\<exists>v' d'. decode_bytes bs (v, d) = Inr (Running, [], v', d') \<and>
           bytes_out v' = bytes_out v + 8 * length bs"
  using assms
proof (induction bs arbitrary: v d)
  case Nil
  then show ?case by simp
next
  case (Cons b bs)
  from one_level_bits [OF Cons.prems, of b 8] obtain v1 d1 where
    s: "decode_bits b 8 (v, d) = Inr (Running, v1, d1)" "one_level_state (v1, d1)"
       "bytes_out v1 = bytes_out v + 8"
    by blast
  from Cons.IH [OF s(2)] obtain v' d' where
    "decode_bytes bs (v1, d1) = Inr (Running, [], v', d')"
    "bytes_out v' = bytes_out v1 + 8 * length bs"
    by blast
  with s show ?case by simp
qed

lemma one_level_count_two_parse:
  "\<exists>d. unpack_parse_header (1 # 2 # 0x41 # 0x42 # bs) = Inr d \<and>
       one_level_state (\<lparr>thislevel = 0, thiscode = 0, bytes_out = 0\<rparr>, d) \<and>
       fpIn d = tl bs"
  by (cases bs) (simp_all add: parse_eval one_level_state_def drop_Suc)

lemma one_level_count_two_result:
  "\<exists>out. unpack_output (1 # 2 # 0x41 # 0x42 # bs) = Inr (8 * length (tl bs), out)"
proof -
  obtain d where d: "unpack_parse_header (1 # 2 # 0x41 # 0x42 # bs) = Inr d"
    "one_level_state (\<lparr>thislevel = 0, thiscode = 0, bytes_out = 0\<rparr>, d)" "fpIn d = tl bs"
    using one_level_count_two_parse by blast
  from one_level_bytes [OF d(2), of "tl bs"] obtain v' d' where
    "decode_bytes (tl bs) (\<lparr>thislevel = 0, thiscode = 0, bytes_out = 0\<rparr>, d) =
       Inr (Running, [], v', d')" "bytes_out v' = 8 * length (tl bs)"
    by auto
  then show ?thesis
    by (simp add: unpack_output_def unpack_def unpack_decode_def d finished_fields)
qed

text \<open>
  One round of the bit loop in terms of \<open>2 * thiscode + bit\<close>, for a level inside the
  tables: \<open>maybe_errx("File corrupt")\<close> is called exactly when the new level exceeds
  \<open>treelevels\<close> in the descending branch, and exactly when the leaf index is strictly
  greater than \<open>symbolsin[thislevel]\<close> in the leaf branch.  In both cases the round
  continues as if the call had not been made.
\<close>

lemma decode_bit_cases:
  assumes "thislevel v < length (inodesin unpackd)"
  shows "decode_bit thisbyte i (v, unpackd) =
    (let code = 2 * thiscode v + of_bool (bit thisbyte i);
         level = thislevel v
     in if code < inodesin unpackd ! level then
          Inr (Running, v\<lparr>thislevel := level + 1, thiscode := code\<rparr>,
               if level + 1 > treelevels unpackd
               then maybe_errx File_corrupt unpackd else unpackd)
        else
          (let index = code - inodesin unpackd ! level;
               u = (if index > symbolsin unpackd ! level
                    then maybe_errx File_corrupt unpackd else unpackd);
               position = tree unpackd ! level + index
           in if position = symbol_eob unpackd then Inr (Finished, v\<lparr>thiscode := code\<rparr>, u)
              else if position \<ge> length (symbol unpackd) then Inl Out_of_bounds
              else Inr (Running, v\<lparr>thislevel := 0, thiscode := 0, bytes_out := bytes_out v + 1\<rparr>,
                        u\<lparr>fpOut := fpOut unpackd @ [symbol unpackd ! position]\<rparr>)))"
proof -
  define code where "code = 2 * thiscode v + (of_bool (bit thisbyte i) :: nat)"
  have c: "push_bit 1 (thiscode v) OR (drop_bit i (unat thisbyte) AND 1) = code"
    unfolding code_def by (rule shift_or_bit)
  have l: "\<not> length (inodesin unpackd) \<le> thislevel v"
    using assms by simp
  show ?thesis
  proof (cases "code < inodesin unpackd ! thislevel v")
    case True
    then show ?thesis
      unfolding decode_bit_def prod.case code_def [symmetric] c
      by (simp add: Let_def l)
  next
    case False
    then show ?thesis
      unfolding decode_bit_def prod.case code_def [symmetric] c
      by (simp add: Let_def l maybe_errx_def)
  qed
qed

subsection \<open>The claims\<close>

text \<open>
  Claim C1, evaluated on the file \<open>03 00 00 01 41 42 ff\<close>: three levels with the counts
  0, 0, 1 (so \<open>symbolsin\<close> is 0, 0, 3 and \<open>inodesin\<close> is 0, 1, 0), the symbols
  \<open>0x41 0x42\<close> and eight 1 bits.  Each bit gives code 1 at level 0, which is not below
  \<open>inodesin[0] = 0\<close>, hence a leaf with index 1; the index is strictly greater than
  \<open>symbolsin[0] = 0\<close>, so \<open>maybe_errx("File corrupt")\<close> is called.  The call returns,
  the symbol at \<open>tree[0] + 1\<close> is looked up and written, and the loop goes on with the
  next bit: eight calls, eight bytes \<open>0x42\<close> of output, the loop is left by
  \<^verbatim>\<open>EOF\<close>, and \<open>unpack\<close> returns 8.
\<close>

theorem corrupt_index_decoding_goes_on:
  "unpack_output [0x03, 0x00, 0x00, 0x01, 0x41, 0x42, 0xFF] =
     Inr (8, [0x42, 0x42, 0x42, 0x42, 0x42, 0x42, 0x42, 0x42]) \<and>
   unpack_reported [0x03, 0x00, 0x00, 0x01, 0x41, 0x42, 0xFF] =
     Inr [File_corrupt, File_corrupt, File_corrupt, File_corrupt,
          File_corrupt, File_corrupt, File_corrupt, File_corrupt, Premature_EOF] \<and>
   decode_exit [0x03, 0x00, 0x00, 0x01, 0x41, 0x42, 0xFF] = Inr Running"
  by (simp add: decode_exit_def unpack_output_def unpack_reported_def unpack_def
      parse_eval decode_eval)

text \<open>
  Claim C2.  In every descriptor that \<open>unpack_parse_header\<close> returns, the table
  \<open>inodesin\<close> has one entry per level, the entry of the deepest level is 0, and the
  entry of every shallower level \<open>L\<close> is \<open>(inodesin[L+1] + symbolsin[L+1]) div 2\<close>.
  All entries are natural numbers, on which \<open>div\<close> truncates.
\<close>

theorem inodesin_table:
  assumes "unpack_parse_header input = Inr u"
  shows "length (inodesin u) = treelevels u + 1 \<and>
         inodesin u ! treelevels u = 0 \<and>
         (\<forall>L<treelevels u.
            inodesin u ! L = (inodesin u ! (L + 1) + symbolsin u ! (L + 1)) div 2)"
proof -
  from assms obtain hdr rest n where
    u: "u = unpackd_fill_inodesin (header_tables n rest) 0"
    by (rule parse_cases)
  let ?h = "header_tables n rest"
  have fr: "treelevels u = n" "length (inodesin u) = Suc n" "symbolsin u = symbolsin ?h"
    using fill_frame [of ?h 0] by (simp_all add: u header_tables_fields)
  have "treelevels ?h < length (inodesin ?h)"
    by (simp add: header_tables_fields)
  from fill_table [OF _ this, of 0] show ?thesis
    by (simp add: fr u [symmetric] header_tables_fields)
qed

theorem inodesin_table_witness:
  "\<exists>u. unpack_parse_header [3, 1, 1, 1, 0x41, 0x42, 0x43, 0x44] = Inr u \<and>
       treelevels u = 2 \<and> symbolsin u = [1, 1, 3] \<and> inodesin u = [1, 1, 0] \<and>
       inodesin u ! 2 = 0 \<and>
       inodesin u ! 1 = (inodesin u ! 2 + symbolsin u ! 2) div 2 \<and>
       inodesin u ! 0 = (inodesin u ! 1 + symbolsin u ! 1) div 2"
proof -
  define u where "u = \<lparr>symbol_size = 4, treelevels = 2, symbolsin = [1, 1, 3],
     inodesin = [1, 1, 0], symbol = [0x41, 0x42, 0x43, 0x44 :: byte], symbol_eob = 4,
     tree = [0, 1, 2], uncompressed_size = 0, fpIn = [], fpOut = [], reported = []\<rparr>"
  have p: "unpack_parse_header [3, 1, 1, 1, 0x41, 0x42, 0x43, 0x44] = Inr u"
    by (simp add: parse_eval u_def)
  have f: "treelevels u = 2" "symbolsin u = [1, 1, 3]" "inodesin u = [1, 1, 0]"
    by (simp_all add: u_def)
  from inodesin_table [OF p] have
    "inodesin u ! 2 = 0"
    "\<forall>L<2. inodesin u ! L = (inodesin u ! (L + 1) + symbolsin u ! (L + 1)) div 2"
    by (simp_all add: f(1))
  then have "inodesin u ! 2 = 0"
       "inodesin u ! 1 = (inodesin u ! 2 + symbolsin u ! 2) div 2"
       "inodesin u ! 0 = (inodesin u ! 1 + symbolsin u ! 1) div 2"
    by (simp_all add: numeral_2_eq_2)
  with p f show ?thesis by blast
qed

text \<open>
  Claim C3.  For a depth byte followed by that many count bytes, the descriptor after
  header parsing holds the transmitted count plus 2 for the last level and the
  transmitted byte for every other level.  The first increment comes before the symbol
  table loop: that loop stores the transmitted count plus 1 bytes for the last level, so
  \<open>symbol_eob\<close> ends that far beyond the start of the last level.
\<close>

theorem last_level_count_plus_two:
  assumes "unat hdr = length counts" and "counts \<noteq> []"
  shows "\<exists>u. unpack_parse_header (hdr # counts @ rest) = Inr u \<and>
           treelevels u = length counts - 1 \<and>
           length (symbolsin u) = length counts \<and>
           symbolsin u ! treelevels u = unat (last counts) + 2 \<and>
           (\<forall>L<treelevels u. symbolsin u ! L = unat (counts ! L)) \<and>
           symbol_eob u = tree u ! treelevels u + unat (last counts) + 1"
proof -
  define n where "n = length counts - 1"
  have sn: "unat hdr = Suc n" using assms by (simp add: n_def)
  let ?h = "header_tables n (counts @ rest)"
  let ?u = "unpackd_fill_inodesin ?h 0"
  have p: "unpack_parse_header (hdr # counts @ rest) = Inr ?u"
    using unpack_parse_header_tables [OF sn] by simp
  note ht = header_tables_counts [OF assms(2), of rest, folded n_def]
  have fr: "treelevels ?u = n" "symbolsin ?u = symbolsin ?h" "tree ?u = tree ?h"
    "symbol_eob ?u = symbol_eob ?h"
    using fill_frame [of ?h 0] by (simp_all add: header_tables_fields)
  have len: "n < length counts" using assms(2) by (simp add: n_def)
  have "treelevels ?u = length counts - 1" using fr(1) by (simp add: n_def)
  moreover have "length (symbolsin ?u) = length counts" by (simp add: fr ht)
  moreover have "symbolsin ?u ! treelevels ?u = unat (last counts) + 2"
    using len by (simp add: fr ht)
  moreover have "\<forall>L<treelevels ?u. symbolsin ?u ! L = unat (counts ! L)"
    using len by (simp add: fr ht)
  moreover have "symbol_eob ?u = tree ?u ! treelevels ?u + unat (last counts) + 1"
    using ht(5) by (simp add: fr ht(3))
  ultimately show ?thesis using p by blast
qed

theorem last_level_count_plus_two_witness:
  "\<exists>u. unpack_parse_header (3 # [1, 1, 1] @ [0x41, 0x42, 0x43, 0x44]) = Inr u \<and>
       treelevels u = 2 \<and> length (symbolsin u) = 3 \<and>
       symbolsin u ! 2 = 3 \<and> symbolsin u ! 0 = 1 \<and> symbolsin u ! 1 = 1 \<and>
       symbol_eob u = tree u ! 2 + 2"
proof -
  have "unat (3 :: byte) = length [1, 1, 1 :: byte]" "[1, 1, 1 :: byte] \<noteq> []"
    by simp_all
  from last_level_count_plus_two [OF this, of "[0x41, 0x42, 0x43, 0x44]"]
  obtain u where p: "unpack_parse_header (3 # [1, 1, 1] @ [0x41, 0x42, 0x43, 0x44]) = Inr u"
    and t: "treelevels u = length [1, 1, 1 :: byte] - 1"
    and l: "length (symbolsin u) = length [1, 1, 1 :: byte]"
    and s: "symbolsin u ! treelevels u = unat (last [1, 1, 1 :: byte]) + 2"
    and o: "\<forall>L<treelevels u. symbolsin u ! L = unat ([1, 1, 1 :: byte] ! L)"
    and e: "symbol_eob u = tree u ! treelevels u + unat (last [1, 1, 1 :: byte]) + 1"
    by blast
  have t2: "treelevels u = 2" using t by simp
  have "symbolsin u ! 0 = 1" "symbolsin u ! 1 = 1"
    using o by (simp_all add: t2)
  moreover have "length (symbolsin u) = 3" "symbolsin u ! 2 = 3"
    "symbol_eob u = tree u ! 2 + 2"
    using l s e by (simp_all add: t2)
  ultimately show ?thesis using p t2 by blast
qed

text \<open>
  Claim C4, evaluated on two files with the same two-level tree (\<open>A\<close> is code 1,
  \<open>B\<close> is code 00, EOB is code 01).  On the first the loop is left through the
  \<^verbatim>\<open>goto\<close> at the EOB leaf after two bytes and no byte is written for EOB.  On the
  second the input ends inside a code word: the loop is left by \<^verbatim>\<open>EOF\<close>, and
  \<open>unpack\<close> returns the count of the bytes written so far in the same way, with the
  same single call of \<open>maybe_errx("Premature EOF")\<close> as in the first run.
\<close>

theorem input_exhaustion_returns_like_eob:
  "decode_exit [2, 1, 0, 0x41, 0x42, 0x88] = Inr Finished \<and>
   unpack_output [2, 1, 0, 0x41, 0x42, 0x88] = Inr (2, [0x41, 0x42]) \<and>
   unpack_reported [2, 1, 0, 0x41, 0x42, 0x88] = Inr [Premature_EOF] \<and>
   decode_exit [2, 1, 0, 0x41, 0x42, 0x80] = Inr Running \<and>
   unpack_output [2, 1, 0, 0x41, 0x42, 0x80] = Inr (4, [0x41, 0x42, 0x42, 0x42]) \<and>
   unpack_reported [2, 1, 0, 0x41, 0x42, 0x80] = Inr [Premature_EOF]"
  by (simp add: decode_exit_def unpack_output_def unpack_reported_def unpack_def
      parse_eval decode_eval)

text \<open>
  Claim C5 as stated: depth byte \<open>0x01\<close>, count byte \<open>0x02\<close>, symbols
  \<open>0x41 0x42\<close>, then one byte of bit stream (\<open>0x58\<close> is \<open>0 10 11\<close> followed by padding,
  a three-leaf code for A, B, EOB).  The symbol table loop reads three bytes for the only
  level, so the bit stream byte becomes the third symbol, nothing is left to decode, and
  the result is no output and a count of 0.
\<close>

theorem scenario_one_level_counterexample:
  "unpack_output [0x01, 0x02, 0x41, 0x42, 0x58] = Inr (0, [])"
  by (simp add: unpack_output_def unpack_def parse_eval decode_eval)

text \<open>
  Claim C5, amended.  A file that does decode to \<open>AB\<close> with a count of 2 has two
  levels: depth byte \<open>0x02\<close>, count bytes \<open>0x01 0x00\<close> (the last level stores its leaf
  count less 2), symbols \<open>0x41 0x42\<close> and the bit stream byte \<open>0x88\<close>, which is
  \<open>1 00 01\<close> followed by padding.
\<close>

theorem scenario_two_levels:
  "unpack_output [0x02, 0x01, 0x00, 0x41, 0x42, 0x88] = Inr (2, [0x41, 0x42])"
  by (simp add: unpack_output_def unpack_def parse_eval decode_eval)

text \<open>
  Claim C6, evaluated on a file with depth byte 25: twenty-four levels with one leaf
  each and a last level with two leaves (one symbol and EOB).  \<open>maybe_errx\<close> is called
  with "Huffman tree has insane levels" and returns; parsing goes on, the bit stream
  \<open>1\<close>, then twenty-four \<open>0\<close> and a \<open>1\<close>, is decoded to the byte \<open>0x41\<close>, the EOB
  leaf is reached and \<open>unpack\<close> returns 1.  With depth byte 0 the same call returns as
  well and line 228 then writes to \<open>symbolsin[-1]\<close>.
\<close>

theorem depth_25_is_decoded:
  "unpack_output depth_25_file = Inr (1, [0x41]) \<and>
   unpack_reported depth_25_file = Inr [Huffman_tree_has_insane_levels, Premature_EOF] \<and>
   decode_exit depth_25_file = Inr Finished \<and>
   unpack_output [0, 0x41] = Inl Out_of_bounds"
  by (simp add: depth_25_file_def decode_exit_def unpack_output_def unpack_reported_def
      unpack_def parse_eval decode_eval)
     (simp add: unpack_parse_header_def Let_def maybe_errx_def)

text \<open>
  Claim C7, evaluated on two files with a one-level tree whose bit streams never reach
  EOB.  With the bit stream byte \<open>0x00\<close> the loop ends by \<^verbatim>\<open>EOF\<close> after eight
  bytes of output; \<open>maybe_errx("Premature EOF")\<close> is called and returns, and \<open>unpack\<close>
  returns 8.  With an empty bit stream the byte count 0 equals the stored size 0, so the
  hook is not even called, and \<open>unpack\<close> returns 0.
\<close>

theorem exhausted_input_returns_count:
  "decode_exit [1, 0, 0x41, 0x00] = Inr Running \<and>
   unpack_output [1, 0, 0x41, 0x00] =
     Inr (8, [0x41, 0x41, 0x41, 0x41, 0x41, 0x41, 0x41, 0x41]) \<and>
   unpack_reported [1, 0, 0x41, 0x00] = Inr [Premature_EOF] \<and>
   decode_exit [1, 0, 0x41] = Inr Running \<and>
   unpack_output [1, 0, 0x41] = Inr (0, []) \<and>
   unpack_reported [1, 0, 0x41] = Inr []"
  by (simp add: decode_exit_def unpack_output_def unpack_reported_def unpack_def
      parse_eval decode_eval)

text \<open>
  Claim C8 as stated: with depth byte \<open>0x01\<close> and count byte \<open>0x02\<close> the transmitted
  counts sum to 2, and the symbol table loop takes 3 bytes from the stream.
\<close>

theorem symbol_table_bytes_counterexample:
  "symbol_bytes_consumed [0x01, 0x02, 0x41, 0x42, 0x58] = Inr 3 \<and>
   sum_list (map unat [0x02 :: byte]) = 2"
  by (simp add: symbol_bytes_consumed_def parse_eval)

text \<open>
  Claim C8, amended.  When the depth byte is followed by that many count bytes and by
  at least \<open>sum + 1\<close> further bytes, where \<open>sum\<close> is the sum of the transmitted counts,
  the symbol table loop consumes exactly \<open>sum + 1\<close> bytes: the last level reads its
  transmitted count plus 1.  These bytes are the whole symbol table.  EOB has no byte in
  it: \<open>symbol_eob\<close> is the position just past the last byte read.
\<close>

theorem symbol_table_bytes_consumed:
  assumes "unat hdr = length counts" and "counts \<noteq> []"
    and "sum_list (map unat counts) + 1 \<le> length rest"
  shows "symbol_bytes_consumed (hdr # counts @ rest) = Inr (sum_list (map unat counts) + 1) \<and>
         (\<exists>u. unpack_parse_header (hdr # counts @ rest) = Inr u \<and>
              symbol u = take (sum_list (map unat counts) + 1) rest \<and>
              symbol_eob u = length (symbol u) \<and>
              fpIn u = drop (sum_list (map unat counts) + 1) rest)"
proof -
  define n where "n = length counts - 1"
  define total where "total = sum_list (map unat counts) + 1"
  have sn: "unat hdr = Suc n" "Suc n = length counts" using assms by (simp_all add: n_def)
  let ?h = "header_tables n (counts @ rest)"
  let ?u = "unpackd_fill_inodesin ?h 0"
  have p: "unpack_parse_header (hdr # counts @ rest) = Inr ?u"
    using unpack_parse_header_tables [OF sn(1)] by simp
  note ht = header_tables_counts [OF assms(2), of rest, folded n_def total_def]
  have fr: "treelevels ?u = n" "symbol ?u = symbol ?h" "fpIn ?u = fpIn ?h"
    "symbol_eob ?u = symbol_eob ?h"
    using fill_frame [of ?h 0] by (simp_all add: header_tables_fields)
  have le: "total \<le> length rest" using assms(3) by (simp add: total_def)
  have a: "symbol ?u = take total rest"
    using le by (simp add: fr ht next_bytes_enough)
  have b: "symbol_eob ?u = length (symbol ?u)"
    using le by (simp add: a) (simp add: fr ht)
  have c: "fpIn ?u = drop total rest" by (simp add: fr ht)
  have "symbol_bytes_consumed (hdr # counts @ rest) = Inr total"
    using le sn(2) by (simp add: symbol_bytes_consumed_def p c fr(1))
  with p a b c show ?thesis unfolding total_def by blast
qed

theorem symbol_table_bytes_consumed_witness:
  "symbol_bytes_consumed (2 # [1, 0] @ [0x41, 0x42, 0x88]) = Inr 2 \<and>
   (\<exists>u. unpack_parse_header (2 # [1, 0] @ [0x41, 0x42, 0x88]) = Inr u \<and>
        symbol u = [0x41, 0x42] \<and> symbol_eob u = 2 \<and> fpIn u = [0x88])"
proof -
  have "unat (2 :: byte) = length [1, 0 :: byte]" "[1, 0 :: byte] \<noteq> []"
    "sum_list (map unat [1, 0 :: byte]) + 1 \<le> length [0x41, 0x42, 0x88 :: byte]"
    by simp_all
  from symbol_table_bytes_consumed [OF this] show ?thesis
    by (auto simp: numeral_2_eq_2)
qed

text \<open>
  Claim C9.  In the leaf branch a leaf index equal to \<open>symbolsin[thislevel]\<close> passes the
  check \<open>inlevelindex > symbolsin[thislevel]\<close>: \<open>maybe_errx\<close> is not called, and the
  byte at \<open>tree[thislevel] + symbolsin[thislevel]\<close> is written (when that position is
  inside the table and is not \<open>symbol_eob\<close>).  A descriptor and a bit for which this
  happens: three levels with the counts 1, 0, 0 and the symbols \<open>0x41 0x42\<close>.  Level 0
  has one leaf, at position 0.  The first bit 1 gives code 1 and index
  \<open>1 = symbolsin[0]\<close>, and the byte at position \<open>tree[0] + symbolsin[0] = 1\<close>, the
  first leaf of the last level, is written.  In the whole run
  \<open>maybe_errx("File corrupt")\<close> is never called.
\<close>

theorem leaf_index_equal_to_count_is_emitted:
  "(\<forall>thisbyte i v unpackd.
      thislevel v < length (inodesin unpackd) \<and>
      inodesin unpackd ! thislevel v \<le> 2 * thiscode v + of_bool (bit thisbyte i) \<and>
      2 * thiscode v + of_bool (bit thisbyte i) - inodesin unpackd ! thislevel v =
        symbolsin unpackd ! thislevel v \<and>
      tree unpackd ! thislevel v + symbolsin unpackd ! thislevel v \<noteq> symbol_eob unpackd \<and>
      tree unpackd ! thislevel v + symbolsin unpackd ! thislevel v < length (symbol unpackd)
      \<longrightarrow>
      decode_bit thisbyte i (v, unpackd) =
        Inr (Running, v\<lparr>thislevel := 0, thiscode := 0, bytes_out := bytes_out v + 1\<rparr>,
             unpackd\<lparr>fpOut := fpOut unpackd @
               [symbol unpackd ! (tree unpackd ! thislevel v + symbolsin unpackd ! thislevel v)]\<rparr>)) \<and>
   (\<exists>unpackd.
     unpack_parse_header [3, 1, 0, 0, 0x41, 0x42, 0x80] = Inr unpackd \<and>
     inodesin unpackd = [0, 1, 0] \<and> symbolsin unpackd = [1, 0, 2] \<and>
     tree unpackd = [0, 1, 1] \<and> symbol unpackd = [0x41, 0x42] \<and>
     2 * 0 + of_bool (bit (0x80 :: byte) 7) - inodesin unpackd ! 0 = symbolsin unpackd ! 0 \<and>
     decode_bit 0x80 7 (\<lparr>thislevel = 0, thiscode = 0, bytes_out = 0\<rparr>, unpackd) =
       Inr (Running, \<lparr>thislevel = 0, thiscode = 0, bytes_out = 1\<rparr>,
            unpackd\<lparr>fpOut := fpOut unpackd @
              [symbol unpackd ! (tree unpackd ! 0 + symbolsin unpackd ! 0)]\<rparr>) \<and>
     symbol unpackd ! (tree unpackd ! 0 + symbolsin unpackd ! 0) = 0x42 \<and>
     unpack_output [3, 1, 0, 0, 0x41, 0x42, 0x80] =
       Inr (8, [0x42, 0x41, 0x41, 0x41, 0x41, 0x41, 0x41, 0x41]) \<and>
     unpack_reported [3, 1, 0, 0, 0x41, 0x42, 0x80] = Inr [Premature_EOF])"
proof (intro conjI allI impI)
  fix thisbyte :: byte and i :: nat and v :: decode_vars and unpackd :: unpack_descriptor
  define code where "code = 2 * thiscode v + (of_bool (bit thisbyte i) :: nat)"
  assume a: "thislevel v < length (inodesin unpackd) \<and>
      inodesin unpackd ! thislevel v \<le> 2 * thiscode v + of_bool (bit thisbyte i) \<and>
      2 * thiscode v + of_bool (bit thisbyte i) - inodesin unpackd ! thislevel v =
        symbolsin unpackd ! thislevel v \<and>
      tree unpackd ! thislevel v + symbolsin unpackd ! thislevel v \<noteq> symbol_eob unpackd \<and>
      tree unpackd ! thislevel v + symbolsin unpackd ! thislevel v < length (symbol unpackd)"
  have c: "push_bit 1 (thiscode v) OR (drop_bit i (unat thisbyte) AND 1) = code"
    unfolding code_def by (rule shift_or_bit)
  from a have b: "\<not> length (inodesin unpackd) \<le> thislevel v"
    "inodesin unpackd ! thislevel v \<le> code"
    "code - inodesin unpackd ! thislevel v = symbolsin unpackd ! thislevel v"
    "tree unpackd ! thislevel v + symbolsin unpackd ! thislevel v \<noteq> symbol_eob unpackd"
    "\<not> length (symbol unpackd) \<le> tree unpackd ! thislevel v + symbolsin unpackd ! thislevel v"
    by (simp_all add: code_def)
  show "decode_bit thisbyte i (v, unpackd) =
        Inr (Running, v\<lparr>thislevel := 0, thiscode := 0, bytes_out := bytes_out v + 1\<rparr>,
             unpackd\<lparr>fpOut := fpOut unpackd @
               [symbol unpackd ! (tree unpackd ! thislevel v + symbolsin unpackd ! thislevel v)]\<rparr>)"
    unfolding decode_bit_def prod.case c
    by (simp add: Let_def b)
next
  have p: "unpack_parse_header [3, 1, 0, 0, 0x41, 0x42, 0x80] =
     Inr \<lparr>symbol_size = 2, treelevels = 2, symbolsin = [1, 0, 2], inodesin = [0, 1, 0],
       symbol = [0x41, 0x42], symbol_eob = 2, tree = [0, 1, 1],
       uncompressed_size = 0, fpIn = [0x80], fpOut = [], reported = []\<rparr>"
    by (simp add: parse_eval)
  have o: "unpack_output [3, 1, 0, 0, 0x41, 0x42, 0x80] =
       Inr (8, [0x42, 0x41, 0x41, 0x41, 0x41, 0x41, 0x41, 0x41])"
    by (simp add: unpack_output_def unpack_def p decode_eval)
  have r: "unpack_reported [3, 1, 0, 0, 0x41, 0x42, 0x80] = Inr [Premature_EOF]"
    by (simp add: unpack_reported_def unpack_def p decode_eval)
  show "\<exists>unpackd.
     unpack_parse_header [3, 1, 0, 0, 0x41, 0x42, 0x80] = Inr unpackd \<and>
     inodesin unpackd = [0, 1, 0] \<and> symbolsin unpackd = [1, 0, 2] \<and>
     tree unpackd = [0, 1, 1] \<and> symbol unpackd = [0x41, 0x42] \<and>
     2 * 0 + of_bool (bit (0x80 :: byte) 7) - inodesin unpackd ! 0 = symbolsin unpackd ! 0 \<and>
     decode_bit 0x80 7 (\<lparr>thislevel = 0, thiscode = 0, bytes_out = 0\<rparr>, unpackd) =
       Inr (Running, \<lparr>thislevel = 0, thiscode = 0, bytes_out = 1\<rparr>,
            unpackd\<lparr>fpOut := fpOut unpackd @
              [symbol unpackd ! (tree unpackd ! 0 + symbolsin unpackd ! 0)]\<rparr>) \<and>
     symbol unpackd ! (tree unpackd ! 0 + symbolsin unpackd ! 0) = 0x42 \<and>
     unpack_output [3, 1, 0, 0, 0x41, 0x42, 0x80] =
       Inr (8, [0x42, 0x41, 0x41, 0x41, 0x41, 0x41, 0x41, 0x41]) \<and>
     unpack_reported [3, 1, 0, 0, 0x41, 0x42, 0x80] = Inr [Premature_EOF]"
    unfolding p o r by (simp add: decode_eval)
qed

theorem leaf_index_equal_to_count_is_emitted_witness:
  "decode_bit 0x80 7
     (\<lparr>thislevel = 0, thiscode = 0, bytes_out = 0\<rparr>,
      \<lparr>symbol_size = 2, treelevels = 2, symbolsin = [1, 0, 2], inodesin = [0, 1, 0],
       symbol = [0x41, 0x42], symbol_eob = 2, tree = [0, 1, 1],
       uncompressed_size = 0, fpIn = [0x80], fpOut = [], reported = []\<rparr>) =
   Inr (Running, \<lparr>thislevel = 0, thiscode = 0, bytes_out = 1\<rparr>,
      \<lparr>symbol_size = 2, treelevels = 2, symbolsin = [1, 0, 2], inodesin = [0, 1, 0],
       symbol = [0x41, 0x42], symbol_eob = 2, tree = [0, 1, 1],
       uncompressed_size = 0, fpIn = [0x80], fpOut = [0x42], reported = []\<rparr>)"
  using leaf_index_equal_to_count_is_emitted [THEN conjunct1, rule_format,
    of "\<lparr>thislevel = 0, thiscode = 0, bytes_out = 0\<rparr>"
      "\<lparr>symbol_size = 2, treelevels = 2, symbolsin = [1, 0, 2], inodesin = [0, 1, 0],
       symbol = [0x41, 0x42], symbol_eob = 2, tree = [0, 1, 1],
       uncompressed_size = 0, fpIn = [0x80], fpOut = [], reported = []\<rparr>" "0x80" 7]
  by simp

text \<open>
  Claim C10.  Whenever \<open>unpack\<close> returns, the returned value is the number of bytes
  written to the output.  The size stored in the descriptor is 0 after header parsing
  and still 0 when the decode loop has ended, which is what the byte count is compared
  with; it is then overwritten with the byte count.  Whatever value \<open>x\<close> the field
  holds at the comparison, the returned value and the output are the same.
\<close>

theorem unpack_returns_emitted_count:
  assumes "unpack input = Inr (n, u)"
  shows "n = length (fpOut u) \<and> uncompressed_size u = n \<and>
    (\<exists>d fl rest v u'.
       unpack_parse_header input = Inr d \<and> uncompressed_size d = 0 \<and>
       decode_bytes (fpIn d) (\<lparr>thislevel = 0, thiscode = 0, bytes_out = 0\<rparr>, d) =
         Inr (fl, rest, v, u') \<and>
       uncompressed_size u' = 0 \<and> bytes_out v = n \<and>
       u = finished v (u'\<lparr>fpIn := rest\<rparr>) \<and>
       (\<forall>x. uncompressed_size (finished v (u'\<lparr>fpIn := rest, uncompressed_size := x\<rparr>)) = n \<and>
            fpOut (finished v (u'\<lparr>fpIn := rest, uncompressed_size := x\<rparr>)) = fpOut u))"
proof -
  from assms obtain d where d: "unpack_parse_header input = Inr d"
    by (auto simp: unpack_def split: sum.splits)
  from assms d obtain u1 where u1: "unpack_decode d = Inr u1" and un: "u = u1" "n = uncompressed_size u1"
    by (auto simp: unpack_def split: sum.splits)
  from u1 obtain fl rest v u' where
    db: "decode_bytes (fpIn d) (\<lparr>thislevel = 0, thiscode = 0, bytes_out = 0\<rparr>, d) =
         Inr (fl, rest, v, u')"
    and f: "u1 = finished v (u'\<lparr>fpIn := rest\<rparr>)"
    by (auto simp: unpack_decode_def split: sum.splits)
  from d obtain hdr tl m where dd: "d = unpackd_fill_inodesin (header_tables m tl) 0"
    by (rule parse_cases)
  have d0: "uncompressed_size d = 0" "fpOut d = []"
    using fill_frame [of "header_tables m tl" 0] by (simp_all add: dd header_tables_fields)
  from decode_bytes_frame [OF db] d0
  have inv: "uncompressed_size u' = 0" "bytes_out v = length (fpOut u')"
    by simp_all
  have "n = bytes_out v" by (simp add: un f finished_fields)
  moreover have "fpOut u = fpOut u'" by (simp add: un f finished_fields)
  moreover have "uncompressed_size u = n" by (simp add: un)
  moreover have "\<forall>x. uncompressed_size (finished v (u'\<lparr>fpIn := rest, uncompressed_size := x\<rparr>)) = n \<and>
            fpOut (finished v (u'\<lparr>fpIn := rest, uncompressed_size := x\<rparr>)) = fpOut u"
    using calculation by (simp add: finished_fields)
  ultimately show ?thesis
    using d d0 db inv f un by auto
qed

theorem unpack_returns_emitted_count_witness:
  "unpack [2, 1, 0, 0x41, 0x42, 0x88] =
     Inr (2, \<lparr>symbol_size = 2, treelevels = 1, symbolsin = [1, 2], inodesin = [1, 0],
       symbol = [0x41, 0x42], symbol_eob = 2, tree = [0, 1],
       uncompressed_size = 2, fpIn = [], fpOut = [0x41, 0x42], reported = [Premature_EOF]\<rparr>) \<and>
   (2 :: nat) = length [0x41, 0x42 :: byte]"
  using unpack_returns_emitted_count [OF unpack_AB] unpack_AB by simp

end
